theory Spec2Isabelle
  imports Main
begin

section \<open>Values exchanged with clients\<close>

text \<open>
  Event payloads and HTTP bodies are free-form JavaScript values that arrive already
  parsed. Numbers are only ever tested for being zero or counted, so they are integers
  here. An object is its list of own properties; the first binding of a key is the one
  that is read.
\<close>

datatype json =
    JUndefined
  | JNull
  | JBool bool
  | JNum int
  | JStr string
  | JArr "json list"
  | JObj "(string \<times> json) list"

datatype error = TypeError

text \<open>
  Property access \<open>v.k\<close> (and the destructuring \<open>const { k } = v\<close>): it throws a
  TypeError on \<open>undefined\<close> and \<open>null\<close>, reads the property of an object, and is
  \<open>undefined\<close> on every other value for the keys the server reads
  (\<open>targetUserId\<close>, \<open>userId\<close>, \<open>progress\<close>).
\<close>

fun js_get :: "json \<Rightarrow> string \<Rightarrow> error + json" where
  "js_get JUndefined k = Inl TypeError"
| "js_get JNull k = Inl TypeError"
| "js_get (JObj kvs) k = Inr (case map_of kvs k of Some v \<Rightarrow> v | None \<Rightarrow> JUndefined)"
| "js_get v k = Inr JUndefined"

text \<open>What \<open>if (!v)\<close> tests: \<open>truthy v\<close> is the negation of \<open>!v\<close>.\<close>

fun truthy :: "json \<Rightarrow> bool" where
  "truthy JUndefined = False"
| "truthy JNull = False"
| "truthy (JBool b) = b"
| "truthy (JNum n) = (n \<noteq> 0)"
| "truthy (JStr s) = (s \<noteq> [])"
| "truthy (JArr xs) = True"
| "truthy (JObj kvs) = True"

section \<open>The connection registry: a JavaScript Map\<close>

text \<open>
  \<open>connectedUsers\<close> is a \<open>Map\<close> from socket id to the user data sent with
  \<open>userJoined\<close>. A \<open>Map\<close> keeps its entries in insertion order with one entry per
  key: \<open>set\<close> overwrites the value of a key in place or appends a new entry,
  \<open>delete\<close> removes the entry of a key if there is one, \<open>size\<close> counts the entries.
\<close>

type_synonym sid = string

type_synonym registry = "(sid \<times> json) list"

fun Map_set :: "sid \<Rightarrow> json \<Rightarrow> registry \<Rightarrow> registry" where
  "Map_set k v [] = [(k, v)]"
| "Map_set k v ((k', v') # m) = (if k' = k then (k, v) # m else (k', v') # Map_set k v m)"

fun Map_delete :: "sid \<Rightarrow> registry \<Rightarrow> registry" where
  "Map_delete k [] = []"
| "Map_delete k ((k', v') # m) = (if k' = k then m else (k', v') # Map_delete k m)"

definition Map_size :: "registry \<Rightarrow> nat" where
  "Map_size m = length m"

definition Map_get :: "registry \<Rightarrow> sid \<Rightarrow> json option" where
  "Map_get m k = map_of m k"

definition Map_keys :: "registry \<Rightarrow> sid list" where
  "Map_keys m = map fst m"

section \<open>The relay\<close>

text \<open>
  The state of the server process: the sockets that are open at the transport (held
  by the Socket.IO server, in the order they connected) and the registry.
\<close>

record relay =
  sockets :: "sid list"
  connectedUsers :: registry

definition init_relay :: relay where
  "init_relay = \<lparr>sockets = [], connectedUsers = []\<rparr>"

text \<open>A packet that reaches a client: the receiving socket, the event name, the argument.\<close>

type_synonym delivery = "sid \<times> string \<times> json"

text \<open>\<open>io.emit(ev, x)\<close>: to every socket that is open.\<close>

definition io_emit :: "relay \<Rightarrow> string \<Rightarrow> json \<Rightarrow> delivery list" where
  "io_emit s ev x = map (\<lambda>r. (r, ev, x)) (sockets s)"

text \<open>
  \<open>socket.to(t).emit(ev, x)\<close> of Socket.IO 4: the packet goes to the sockets in the
  rooms named by \<open>t\<close> (one room, or the rooms of an array), each socket once, the
  emitting socket excepted; with no room named it goes to every socket but the
  emitting one. Every socket is in the room named by its own id, and this server
  never calls \<open>join\<close>, so these are the only rooms.
\<close>

definition rooms_of :: "json \<Rightarrow> json list" where
  "rooms_of t = (case t of JArr rs \<Rightarrow> rs | _ \<Rightarrow> [t])"

fun room_members :: "sid list \<Rightarrow> json \<Rightarrow> sid list" where
  "room_members live (JStr r) = (if r \<in> set live then [r] else [])"
| "room_members live v = []"

definition socket_to :: "relay \<Rightarrow> sid \<Rightarrow> json \<Rightarrow> sid list" where
  "socket_to s c t =
     (let rooms = rooms_of t in
      if rooms = [] then filter (\<lambda>r. r \<noteq> c) (sockets s)
      else rev (remdups (rev (filter (\<lambda>r. r \<noteq> c) (concat (map (room_members (sockets s)) rooms))))))"

definition socket_to_emit :: "relay \<Rightarrow> sid \<Rightarrow> json \<Rightarrow> string \<Rightarrow> json \<Rightarrow> delivery list" where
  "socket_to_emit s c t ev x = map (\<lambda>r. (r, ev, x)) (socket_to s c t)"

subsection \<open>The handlers registered in \<open>io.on('connection')\<close>\<close>

text \<open>
  Each handler runs on the socket \<open>c\<close> it was registered for. It returns the new
  state and the packets it sends, or the exception it throws. The \<open>console.log\<close>
  calls change neither and are left out.
\<close>

definition on_userJoined :: "sid \<Rightarrow> json \<Rightarrow> relay \<Rightarrow> error + relay \<times> delivery list" where
  "on_userJoined c userData s =
     (let s' = s\<lparr>connectedUsers := Map_set c userData (connectedUsers s)\<rparr>
      in Inr (s', io_emit s' ''onlineUsers'' (JNum (int (Map_size (connectedUsers s'))))))"

definition on_disconnect :: "sid \<Rightarrow> relay \<Rightarrow> error + relay \<times> delivery list" where
  "on_disconnect c s =
     (let s' = s\<lparr>connectedUsers := Map_delete c (connectedUsers s)\<rparr>
      in Inr (s', io_emit s' ''onlineUsers'' (JNum (int (Map_size (connectedUsers s'))))))"

definition on_chatMessage :: "sid \<Rightarrow> json \<Rightarrow> relay \<Rightarrow> error + relay \<times> delivery list" where
  "on_chatMessage c data s = Inr (s, io_emit s ''chatMessage'' data)"

definition on_battleInvite :: "sid \<Rightarrow> json \<Rightarrow> relay \<Rightarrow> error + relay \<times> delivery list" where
  "on_battleInvite c data s =
     (case js_get data ''targetUserId'' of
        Inl e \<Rightarrow> Inl e
      | Inr t \<Rightarrow> Inr (s, socket_to_emit s c t ''battleInvite'' data))"

subsection \<open>Events and traces\<close>

datatype event =
    Connect sid
  | UserJoined sid json
  | Disconnect sid
  | ChatMessage sid json
  | BattleInvite sid json

text \<open>
  One event. A connecting socket becomes open and gets its handlers; nothing is sent
  and the registry is not touched. A disconnecting socket has left the transport by
  the time its \<open>disconnect\<close> handler runs.
\<close>

fun step :: "relay \<Rightarrow> event \<Rightarrow> error + relay \<times> delivery list" where
  "step s (Connect c) = Inr (s\<lparr>sockets := sockets s @ [c]\<rparr>, [])"
| "step s (UserJoined c userData) = on_userJoined c userData s"
| "step s (Disconnect c) = on_disconnect c (s\<lparr>sockets := removeAll c (sockets s)\<rparr>)"
| "step s (ChatMessage c data) = on_chatMessage c data s"
| "step s (BattleInvite c data) = on_battleInvite c data s"

text \<open>
  The events the transport can produce in a state: a session identifier is unique
  among the open sockets, and only an open socket sends events or disconnects.
\<close>

fun can_occur :: "relay \<Rightarrow> event \<Rightarrow> bool" where
  "can_occur s (Connect c) = (c \<notin> set (sockets s))"
| "can_occur s (UserJoined c userData) = (c \<in> set (sockets s))"
| "can_occur s (Disconnect c) = (c \<in> set (sockets s))"
| "can_occur s (ChatMessage c data) = (c \<in> set (sockets s))"
| "can_occur s (BattleInvite c data) = (c \<in> set (sockets s))"

text \<open>Replaying a trace; an exception thrown by a handler ends the run.\<close>

fun replay :: "relay \<Rightarrow> event list \<Rightarrow> error + relay" where
  "replay s [] = Inr s"
| "replay s (e # es) = (case step s e of Inl err \<Rightarrow> Inl err | Inr (s', out) \<Rightarrow> replay s' es)"

fun trace_ok :: "relay \<Rightarrow> event list \<Rightarrow> bool" where
  "trace_ok s [] = True"
| "trace_ok s (e # es) =
     (can_occur s e \<and> (case step s e of Inl err \<Rightarrow> False | Inr (s', out) \<Rightarrow> trace_ok s' es))"

section \<open>The HTTP routes\<close>

record response =
  status :: nat
  body :: json

text \<open>\<open>GET /api/users/online\<close>\<close>

definition get_users_online :: "relay \<Rightarrow> response" where
  "get_users_online s =
     \<lparr>status = 200, body = JObj [(''count'', JNum (int (Map_size (connectedUsers s))))]\<rparr>"

text \<open>
  \<open>POST /api/progress\<close> on the parsed request body. The destructuring is inside the
  \<open>try\<close>, so its TypeError is answered with status 500. The route writes to the
  console only; the state of the process is returned as it was.
\<close>

definition post_progress :: "json \<Rightarrow> relay \<Rightarrow> relay \<times> response" where
  "post_progress req_body s =
     (case js_get req_body ''userId'' of
        Inl e \<Rightarrow> (s, \<lparr>status = 500, body = JObj [(''error'', JStr ''Failed to save progress'')]\<rparr>)
      | Inr userId \<Rightarrow>
          (case js_get req_body ''progress'' of
             Inl e \<Rightarrow> (s, \<lparr>status = 500, body = JObj [(''error'', JStr ''Failed to save progress'')]\<rparr>)
           | Inr progress \<Rightarrow>
               if \<not> truthy userId then
                 (s, \<lparr>status = 400, body = JObj [(''error'', JStr ''User ID is required'')]\<rparr>)
               else if \<not> truthy progress then
                 (s, \<lparr>status = 400, body = JObj [(''error'', JStr ''Progress data is required'')]\<rparr>)
               else
                 (s, \<lparr>status = 200,
                      body = JObj [(''success'', JBool True), (''message'', JStr ''Progress saved'')]\<rparr>)))"

section \<open>Counting over traces\<close>

text \<open>
  The quantities the specification counts in a trace. \<open>J\<close> holds the connections
  that have joined and not disconnected since.
\<close>

fun lifecycle :: "event \<Rightarrow> bool" where
  "lifecycle (Connect c) = True"
| "lifecycle (UserJoined c userData) = True"
| "lifecycle (Disconnect c) = True"
| "lifecycle e = False"

fun count_joins :: "event list \<Rightarrow> nat" where
  "count_joins [] = 0"
| "count_joins (UserJoined c userData # es) = Suc (count_joins es)"
| "count_joins (e # es) = count_joins es"

fun joined_after :: "sid list \<Rightarrow> event \<Rightarrow> sid list" where
  "joined_after J (UserJoined c userData) = List.insert c J"
| "joined_after J (Disconnect c) = removeAll c J"
| "joined_after J e = J"

fun disconnects_of_joined :: "sid list \<Rightarrow> event list \<Rightarrow> nat" where
  "disconnects_of_joined J [] = 0"
| "disconnects_of_joined J (Disconnect c # es) =
     (if c \<in> set J then 1 else 0) + disconnects_of_joined (joined_after J (Disconnect c)) es"
| "disconnects_of_joined J (e # es) = disconnects_of_joined (joined_after J e) es"

text \<open>The \<open>userJoined\<close> events of connections that had not joined yet.\<close>

fun first_joins :: "sid list \<Rightarrow> event list \<Rightarrow> nat" where
  "first_joins J [] = 0"
| "first_joins J (UserJoined c userData # es) =
     (if c \<in> set J then 0 else 1) + first_joins (joined_after J (UserJoined c userData)) es"
| "first_joins J (e # es) = first_joins (joined_after J e) es"

text \<open>A field is supplied when the request body is an object that has it.\<close>

fun supplied :: "json \<Rightarrow> string \<Rightarrow> bool" where
  "supplied (JObj kvs) k = (k \<in> set (map fst kvs))"
| "supplied v k = False"

section \<open>Invariants of the relay\<close>

text \<open>
  The registry has one entry per key, and \<open>J\<close> lists its keys.
\<close>

definition keys_ok :: "relay \<Rightarrow> sid list \<Rightarrow> bool" where
  "keys_ok s J \<longleftrightarrow> distinct (Map_keys (connectedUsers s)) \<and> set J = set (Map_keys (connectedUsers s))"

text \<open>
  Session identifiers are unique among the open sockets, and every key of the
  registry is the identifier of an open socket.
\<close>

definition live_ok :: "relay \<Rightarrow> bool" where
  "live_ok s \<longleftrightarrow> distinct (sockets s) \<and> distinct (Map_keys (connectedUsers s))
     \<and> set (Map_keys (connectedUsers s)) \<subseteq> set (sockets s)"

section \<open>Properties of the registry operations\<close>

lemma Map_size_pos: "k \<in> set (Map_keys m) \<Longrightarrow> 0 < Map_size m"
  by (cases m) (auto simp: Map_keys_def Map_size_def)

lemma Map_keys_Map_set: "set (Map_keys (Map_set k v m)) = insert k (set (Map_keys m))"
  by (induction k v m rule: Map_set.induct) (auto simp: Map_keys_def)

lemma distinct_Map_set: "distinct (Map_keys m) \<Longrightarrow> distinct (Map_keys (Map_set k v m))"
proof (induction k v m rule: Map_set.induct)
  case (1 k v)
  then show ?case by (simp add: Map_keys_def)
next
  case (2 k v k' v' m)
  show ?case
  proof (cases "k' = k")
    case True
    with 2 show ?thesis by (simp add: Map_keys_def)
  next
    case False
    have "set (Map_keys (Map_set k v m)) = insert k (set (Map_keys m))"
      by (rule Map_keys_Map_set)
    moreover have "distinct (Map_keys (Map_set k v m))"
      using 2 False by (simp add: Map_keys_def)
    ultimately show ?thesis using 2 False by (simp add: Map_keys_def)
  qed
qed

lemma Map_keys_Map_delete_subset: "set (Map_keys (Map_delete k m)) \<subseteq> set (Map_keys m)"
  by (induction k m rule: Map_delete.induct) (auto simp: Map_keys_def)

lemma distinct_Map_delete: "distinct (Map_keys m) \<Longrightarrow> distinct (Map_keys (Map_delete k m))"
proof (induction k m rule: Map_delete.induct)
  case (1 k)
  then show ?case by (simp add: Map_keys_def)
next
  case (2 k k' v' m)
  have "set (Map_keys (Map_delete k m)) \<subseteq> set (Map_keys m)"
    by (rule Map_keys_Map_delete_subset)
  with 2 show ?case by (auto simp: Map_keys_def)
qed

lemma Map_keys_Map_delete:
  "distinct (Map_keys m) \<Longrightarrow> set (Map_keys (Map_delete k m)) = set (Map_keys m) - {k}"
proof (induction k m rule: Map_delete.induct)
  case (1 k)
  then show ?case by (simp add: Map_keys_def)
next
  case (2 k k' v' m)
  then show ?case by (auto simp: Map_keys_def)
qed

lemma Map_delete_absent: "k \<notin> set (Map_keys m) \<Longrightarrow> Map_delete k m = m"
  by (induction k m rule: Map_delete.induct) (auto simp: Map_keys_def)

lemma Map_size_Map_set:
  "Map_size (Map_set k v m) = (if k \<in> set (Map_keys m) then Map_size m else Suc (Map_size m))"
  by (induction k v m rule: Map_set.induct) (auto simp: Map_keys_def Map_size_def)

lemma Map_size_Map_delete:
  "Map_size (Map_delete k m) = (if k \<in> set (Map_keys m) then Map_size m - 1 else Map_size m)"
proof (induction k m rule: Map_delete.induct)
  case (1 k)
  then show ?case by (simp add: Map_keys_def Map_size_def)
next
  case (2 k k' v' m)
  show ?case
  proof (cases "k' = k")
    case True
    then show ?thesis by (simp add: Map_keys_def Map_size_def)
  next
    case False
    have "k \<in> set (Map_keys m) \<Longrightarrow> 0 < Map_size m"
      by (rule Map_size_pos)
    with 2 False show ?thesis by (auto simp: Map_keys_def Map_size_def)
  qed
qed

lemma Map_set_Map_set: "Map_set k v (Map_set k u m) = Map_set k v m"
  by (induction k u m rule: Map_set.induct) auto

lemma Map_get_Map_set: "Map_get (Map_set k v m) k' = (if k' = k then Some v else Map_get m k')"
  by (induction k v m rule: Map_set.induct) (auto simp: Map_get_def)

section \<open>Properties of the emits\<close>

lemma socket_to_JStr:
  "socket_to s c (JStr X) = (if X \<in> set (sockets s) \<and> X \<noteq> c then [X] else [])"
  by (simp add: socket_to_def rooms_of_def)

lemma socket_to_not_sender: "c \<notin> set (socket_to s c t)"
  by (simp add: socket_to_def Let_def)

lemma socket_to_subset: "set (socket_to s c t) \<subseteq> set (sockets s)"
proof -
  have "set (room_members (sockets s) r) \<subseteq> set (sockets s)" for r
    by (cases r) auto
  then show ?thesis
    by (auto simp: socket_to_def Let_def)
qed

lemma room_members_iff: "X \<in> set (room_members live r) \<longleftrightarrow> r = JStr X \<and> X \<in> set live"
  by (cases r) auto

lemma room_members_not_JStr: "\<forall>X. r \<noteq> JStr X \<Longrightarrow> room_members live r = []"
  by (cases r) auto

lemma socket_to_JArr_Nil: "socket_to s c (JArr []) = filter (\<lambda>r. r \<noteq> c) (sockets s)"
  by (simp add: socket_to_def rooms_of_def)

lemma socket_to_JArr:
  "rs \<noteq> [] \<Longrightarrow> set (socket_to s c (JArr rs)) = {X \<in> set (sockets s). JStr X \<in> set rs \<and> X \<noteq> c}"
  by (auto simp: socket_to_def rooms_of_def room_members_iff)

lemma socket_to_other:
  assumes "\<forall>rs. t \<noteq> JArr rs" and "\<forall>X. t \<noteq> JStr X"
  shows "socket_to s c t = []"
proof -
  have "rooms_of t = [t]"
    using assms(1) by (cases t) (simp_all add: rooms_of_def)
  moreover have "room_members (sockets s) t = []"
    using assms(2) by (rule room_members_not_JStr)
  ultimately show ?thesis by (simp add: socket_to_def)
qed

lemma socket_to_no_array:
  assumes "\<forall>rs. t \<noteq> JArr rs"
  shows "socket_to s c t = (case t of JStr X \<Rightarrow> if X \<in> set (sockets s) \<and> X \<noteq> c then [X] else [] | _ \<Rightarrow> [])"
proof (cases "\<exists>X. t = JStr X")
  case True
  then show ?thesis by (auto simp: socket_to_JStr)
next
  case False
  then have "socket_to s c t = []" using assms by (simp add: socket_to_other)
  with False show ?thesis by (cases t) simp_all
qed

section \<open>Properties of traces\<close>

lemma step_registry:
  assumes "step s e = Inr (s', out)"
  shows "connectedUsers s' =
           (case e of UserJoined c u \<Rightarrow> Map_set c u (connectedUsers s)
                    | Disconnect c \<Rightarrow> Map_delete c (connectedUsers s)
                    | _ \<Rightarrow> connectedUsers s)"
  using assms
  by (cases e) (auto simp: on_userJoined_def on_disconnect_def on_chatMessage_def
      on_battleInvite_def Let_def split: sum.splits)

lemma step_sockets:
  assumes "step s e = Inr (s', out)"
  shows "sockets s' =
           (case e of Connect c \<Rightarrow> sockets s @ [c]
                    | Disconnect c \<Rightarrow> removeAll c (sockets s)
                    | _ \<Rightarrow> sockets s)"
  using assms
  by (cases e) (auto simp: on_userJoined_def on_disconnect_def on_chatMessage_def
      on_battleInvite_def Let_def split: sum.splits)

lemma step_lifecycle: "lifecycle e \<Longrightarrow> \<exists>s' out. step s e = Inr (s', out)"
  by (cases e) (simp_all add: on_userJoined_def on_disconnect_def Let_def)

lemma replay_lifecycle: "\<forall>e \<in> set es. lifecycle e \<Longrightarrow> \<exists>s'. replay s es = Inr s'"
proof (induction es arbitrary: s)
  case Nil
  then show ?case by simp
next
  case (Cons e es)
  then obtain s1 out where st: "step s e = Inr (s1, out)"
    using step_lifecycle [of e s] by auto
  from Cons obtain s' where "replay s1 es = Inr s'" by auto
  with st show ?case by simp
qed

lemma step_keys_ok:
  assumes "step s e = Inr (s', out)" and "keys_ok s J"
  shows "keys_ok s' (joined_after J e)"
proof -
  note r = step_registry [OF assms(1)]
  show ?thesis
  proof (cases e)
    case (UserJoined c u)
    with r assms(2) show ?thesis
      by (simp add: keys_ok_def distinct_Map_set Map_keys_Map_set)
  next
    case (Disconnect c)
    with r assms(2) show ?thesis
      by (simp add: keys_ok_def distinct_Map_delete Map_keys_Map_delete)
  qed (use r assms(2) in \<open>simp_all add: keys_ok_def\<close>)
qed

lemma step_count:
  assumes "step s e = Inr (s', out)" and "keys_ok s J"
  shows "Map_size (connectedUsers s') + disconnects_of_joined J (e # es) + first_joins (joined_after J e) es
         = Map_size (connectedUsers s) + first_joins J (e # es) + disconnects_of_joined (joined_after J e) es"
proof -
  note r = step_registry [OF assms(1)]
  show ?thesis
  proof (cases e)
    case (UserJoined c u)
    with r assms(2) show ?thesis
      by (simp add: keys_ok_def Map_size_Map_set)
  next
    case (Disconnect c)
    have "c \<in> set (Map_keys (connectedUsers s)) \<Longrightarrow> 0 < Map_size (connectedUsers s)"
      by (rule Map_size_pos)
    with Disconnect r assms(2) show ?thesis
      by (auto simp: keys_ok_def Map_size_Map_delete)
  qed (use r in simp_all)
qed

lemma replay_count:
  assumes "replay s es = Inr s'" and "keys_ok s J"
  shows "Map_size (connectedUsers s') + disconnects_of_joined J es
         = Map_size (connectedUsers s) + first_joins J es
         \<and> keys_ok s' (foldl joined_after J es)"
  using assms
proof (induction es arbitrary: s J)
  case Nil
  then show ?case by simp
next
  case (Cons e es)
  from Cons.prems(1) obtain s1 out where st: "step s e = Inr (s1, out)" and rest: "replay s1 es = Inr s'"
    by (auto split: sum.splits)
  have k1: "keys_ok s1 (joined_after J e)"
    using st Cons.prems(2) by (rule step_keys_ok)
  from Cons.IH [OF rest k1] step_count [OF st Cons.prems(2), of es]
  show ?case by simp
qed

lemma keys_ok_init: "keys_ok init_relay []"
  by (simp add: keys_ok_def init_relay_def Map_keys_def)

lemma step_live_ok:
  assumes "step s e = Inr (s', out)" and "can_occur s e" and "live_ok s"
  shows "live_ok s'"
proof -
  note r = step_registry [OF assms(1)] and t = step_sockets [OF assms(1)]
  show ?thesis
  proof (cases e)
    case (Connect c)
    with r t assms(2,3) show ?thesis by (auto simp: live_ok_def)
  next
    case (UserJoined c u)
    with r t assms(2,3) show ?thesis
      by (simp add: live_ok_def distinct_Map_set Map_keys_Map_set)
  next
    case (Disconnect c)
    with r t assms(2,3) show ?thesis
      by (auto simp: live_ok_def distinct_Map_delete Map_keys_Map_delete distinct_removeAll)
  qed (use r t assms(3) in \<open>simp_all add: live_ok_def\<close>)
qed

lemma replay_live_ok:
  assumes "trace_ok s es" and "replay s es = Inr s'" and "live_ok s"
  shows "live_ok s'"
  using assms
proof (induction es arbitrary: s)
  case Nil
  then show ?case by simp
next
  case (Cons e es)
  from Cons.prems(2) obtain s1 out where st: "step s e = Inr (s1, out)" and rest: "replay s1 es = Inr s'"
    by (auto split: sum.splits)
  from Cons.prems(1) st have oc: "can_occur s e" and ok: "trace_ok s1 es" by simp_all
  have "live_ok s1" using st oc Cons.prems(3) by (rule step_live_ok)
  with Cons.IH ok rest show ?case by blast
qed

lemma live_ok_init: "live_ok init_relay"
  by (simp add: live_ok_def init_relay_def Map_keys_def)

lemma Map_size_card: "distinct (Map_keys m) \<Longrightarrow> Map_size m = card (set (Map_keys m))"
  using distinct_card [of "Map_keys m"] by (simp add: Map_size_def Map_keys_def)

lemma live_ok_size:
  assumes "live_ok s"
  shows "Map_size (connectedUsers s) \<le> length (sockets s)"
proof -
  have "Map_size (connectedUsers s) = card (set (Map_keys (connectedUsers s)))"
    using assms by (simp add: live_ok_def Map_size_card)
  also have "\<dots> \<le> card (set (sockets s))"
    using assms by (simp add: live_ok_def card_mono)
  also have "\<dots> = length (sockets s)"
    using assms by (simp add: live_ok_def distinct_card)
  finally show ?thesis .
qed

lemma live_ok_size_joined:
  assumes "live_ok s"
  shows "Map_size (connectedUsers s)
         = length (filter (\<lambda>c. c \<in> set (Map_keys (connectedUsers s))) (sockets s))"
proof -
  let ?K = "set (Map_keys (connectedUsers s))"
  have "Map_size (connectedUsers s) = card ?K"
    using assms by (simp add: live_ok_def Map_size_card)
  also have "?K = set (filter (\<lambda>c. c \<in> ?K) (sockets s))"
    using assms by (auto simp: live_ok_def)
  also have "card \<dots> = length (filter (\<lambda>c. c \<in> ?K) (sockets s))"
  proof (rule distinct_card)
    show "distinct (filter (\<lambda>c. c \<in> ?K) (sockets s))"
      using assms by (simp add: live_ok_def)
  qed
  finally show ?thesis .
qed

lemma replay_joined_keys:
  assumes "replay s es = Inr s'"
  shows "set (Map_keys (connectedUsers s'))
         \<subseteq> set (Map_keys (connectedUsers s)) \<union> {c. \<exists>u. UserJoined c u \<in> set es}"
  using assms
proof (induction es arbitrary: s)
  case Nil
  then show ?case by simp
next
  case (Cons e es)
  from Cons.prems obtain s1 out where st: "step s e = Inr (s1, out)" and rest: "replay s1 es = Inr s'"
    by (auto split: sum.splits)
  have "set (Map_keys (connectedUsers s1))
        \<subseteq> set (Map_keys (connectedUsers s)) \<union> {c. \<exists>u. UserJoined c u \<in> set [e]}"
    using step_registry [OF st] Map_keys_Map_delete_subset [of _ "connectedUsers s"]
    by (cases e) (auto simp: Map_keys_Map_set)
  with Cons.IH [OF rest] show ?case by auto
qed

section \<open>The claims\<close>

subsection \<open>Targeted battle invites\<close>

text \<open>
  C1, as stated, fails: the handler hands \<open>data.targetUserId\<close> to \<open>socket.to\<close>
  as it comes. When the field is an array no connection has an identifier equal to it,
  yet an empty array sends the invite of \<open>A\<close> to \<open>B\<close> and to \<open>C\<close>, and so does the
  array of their two identifiers.
\<close>

theorem battleInvite_third_party_counterexample:
  "js_get (JObj [(''targetUserId'', JArr [])]) ''targetUserId'' = Inr (JArr [])
   \<and> ''A'' \<in> set (sockets \<lparr>sockets = [''A'', ''B'', ''C''], connectedUsers = []\<rparr>)
   \<and> JArr [] \<notin> set (map JStr (sockets \<lparr>sockets = [''A'', ''B'', ''C''], connectedUsers = []\<rparr>))
   \<and> step \<lparr>sockets = [''A'', ''B'', ''C''], connectedUsers = []\<rparr>
        (BattleInvite ''A'' (JObj [(''targetUserId'', JArr [])]))
      = Inr (\<lparr>sockets = [''A'', ''B'', ''C''], connectedUsers = []\<rparr>,
             [(''B'', ''battleInvite'', JObj [(''targetUserId'', JArr [])]),
              (''C'', ''battleInvite'', JObj [(''targetUserId'', JArr [])])])
   \<and> js_get (JObj [(''targetUserId'', JArr [JStr ''B'', JStr ''C''])]) ''targetUserId''
      = Inr (JArr [JStr ''B'', JStr ''C''])
   \<and> JArr [JStr ''B'', JStr ''C'']
        \<notin> set (map JStr (sockets \<lparr>sockets = [''A'', ''B'', ''C''], connectedUsers = []\<rparr>))
   \<and> step \<lparr>sockets = [''A'', ''B'', ''C''], connectedUsers = []\<rparr>
        (BattleInvite ''A'' (JObj [(''targetUserId'', JArr [JStr ''B'', JStr ''C''])]))
      = Inr (\<lparr>sockets = [''A'', ''B'', ''C''], connectedUsers = []\<rparr>,
             [(''B'', ''battleInvite'', JObj [(''targetUserId'', JArr [JStr ''B'', JStr ''C''])]),
              (''C'', ''battleInvite'', JObj [(''targetUserId'', JArr [JStr ''B'', JStr ''C''])])])"
  by (simp add: on_battleInvite_def socket_to_emit_def socket_to_def rooms_of_def)

text \<open>
  C1, amended: a \<open>battleInvite\<close> whose payload has a \<open>targetUserId\<close> field is
  never answered with an exception, leaves the state as it is, and reaches open
  sockets other than the sender only, with the payload unchanged. When the field is
  not an array, every socket that receives the event has an identifier equal to the
  field, nothing at all is sent when no open socket has such an identifier, and when
  the field is the identifier of an open socket other than the sender exactly that
  socket receives the event, once. When the field is an array, the event reaches the
  open sockets other than the sender that the array names, and every open socket other
  than the sender when the array is empty.
\<close>

theorem battleInvite_routed:
  assumes "js_get data ''targetUserId'' = Inr t"
  shows "\<exists>out. step s (BattleInvite a data) = Inr (s, out)
           \<and> (\<forall>d \<in> set out. d = (fst d, ''battleInvite'', data) \<and> fst d \<in> set (sockets s) \<and> fst d \<noteq> a)
           \<and> ((\<forall>rs. t \<noteq> JArr rs) \<longrightarrow>
                 (\<forall>d \<in> set out. t = JStr (fst d))
                 \<and> ((\<forall>X \<in> set (sockets s). t \<noteq> JStr X) \<longrightarrow> out = [])
                 \<and> (\<forall>X. t = JStr X \<and> X \<in> set (sockets s) \<and> X \<noteq> a
                        \<longrightarrow> out = [(X, ''battleInvite'', data)]))
           \<and> (\<forall>rs. t = JArr rs \<and> rs \<noteq> []
                 \<longrightarrow> fst ` set out = {X \<in> set (sockets s). JStr X \<in> set rs \<and> X \<noteq> a})
           \<and> (t = JArr [] \<longrightarrow> map fst out = filter (\<lambda>r. r \<noteq> a) (sockets s))"
proof -
  let ?out = "socket_to_emit s a t ''battleInvite'' data"
  have st: "step s (BattleInvite a data) = Inr (s, ?out)"
    using assms by (simp add: on_battleInvite_def)
  have fs: "map fst ?out = socket_to s a t"
    by (simp add: socket_to_emit_def comp_def)
  have all: "\<forall>d \<in> set ?out. d = (fst d, ''battleInvite'', data) \<and> fst d \<in> set (sockets s) \<and> fst d \<noteq> a"
    using socket_to_subset [of s a t] socket_to_not_sender [of a s t]
    by (auto simp: socket_to_emit_def)
  have noarr: "(\<forall>d \<in> set ?out. t = JStr (fst d))
                 \<and> ((\<forall>X \<in> set (sockets s). t \<noteq> JStr X) \<longrightarrow> ?out = [])
                 \<and> (\<forall>X. t = JStr X \<and> X \<in> set (sockets s) \<and> X \<noteq> a
                        \<longrightarrow> ?out = [(X, ''battleInvite'', data)])"
    if "\<forall>rs. t \<noteq> JArr rs"
    using socket_to_no_array [OF that, of s a]
    by (cases t) (auto simp: socket_to_emit_def)
  have arr: "fst ` set ?out = {X \<in> set (sockets s). JStr X \<in> set rs \<and> X \<noteq> a}"
    if "t = JArr rs \<and> rs \<noteq> []" for rs
  proof -
    have "fst ` set ?out = set (map fst ?out)" by simp
    also have "\<dots> = set (socket_to s a t)" by (simp only: fs)
    also have "\<dots> = {X \<in> set (sockets s). JStr X \<in> set rs \<and> X \<noteq> a}"
      using that socket_to_JArr [of rs s a] by simp
    finally show ?thesis .
  qed
  have emp: "map fst ?out = filter (\<lambda>r. r \<noteq> a) (sockets s)" if "t = JArr []"
    using that fs by (simp add: socket_to_JArr_Nil)
  from st all noarr arr emp show ?thesis by blast
qed

theorem battleInvite_routed_witness:
  "js_get (JObj [(''targetUserId'', JStr ''C'')]) ''targetUserId'' = Inr (JStr ''C'')
   \<and> step \<lparr>sockets = [''A'', ''B'', ''C''], connectedUsers = []\<rparr>
        (BattleInvite ''A'' (JObj [(''targetUserId'', JStr ''C'')]))
      = Inr (\<lparr>sockets = [''A'', ''B'', ''C''], connectedUsers = []\<rparr>,
             [(''C'', ''battleInvite'', JObj [(''targetUserId'', JStr ''C'')])])
   \<and> step \<lparr>sockets = [''A'', ''B''], connectedUsers = []\<rparr>
        (BattleInvite ''A'' (JObj [(''targetUserId'', JStr ''C'')]))
      = Inr (\<lparr>sockets = [''A'', ''B''], connectedUsers = []\<rparr>, [])
   \<and> js_get (JObj [(''targetUserId'', JNum 7)]) ''targetUserId'' = Inr (JNum 7)
   \<and> step \<lparr>sockets = [''A'', ''B''], connectedUsers = []\<rparr>
        (BattleInvite ''A'' (JObj [(''targetUserId'', JNum 7)]))
      = Inr (\<lparr>sockets = [''A'', ''B''], connectedUsers = []\<rparr>, [])
   \<and> js_get (JObj [(''targetUserId'', JArr [JStr ''B'', JStr ''D''])]) ''targetUserId''
      = Inr (JArr [JStr ''B'', JStr ''D''])
   \<and> step \<lparr>sockets = [''A'', ''B'', ''C''], connectedUsers = []\<rparr>
        (BattleInvite ''A'' (JObj [(''targetUserId'', JArr [JStr ''B'', JStr ''D''])]))
      = Inr (\<lparr>sockets = [''A'', ''B'', ''C''], connectedUsers = []\<rparr>,
             [(''B'', ''battleInvite'', JObj [(''targetUserId'', JArr [JStr ''B'', JStr ''D''])])])"
proof -
  let ?s3 = "\<lparr>sockets = [''A'', ''B'', ''C''], connectedUsers = []\<rparr>"
  let ?s2 = "\<lparr>sockets = [''A'', ''B''], connectedUsers = []\<rparr>"
  let ?c = "JObj [(''targetUserId'', JStr ''C'')]"
  let ?n = "JObj [(''targetUserId'', JNum 7)]"
  let ?r = "JObj [(''targetUserId'', JArr [JStr ''B'', JStr ''D''])]"
  have gc: "js_get ?c ''targetUserId'' = Inr (JStr ''C'')" by simp
  have gn: "js_get ?n ''targetUserId'' = Inr (JNum 7)" by simp
  have gr: "js_get ?r ''targetUserId'' = Inr (JArr [JStr ''B'', JStr ''D''])" by simp
  have 1: "step ?s3 (BattleInvite ''A'' ?c) = Inr (?s3, [(''C'', ''battleInvite'', ?c)])"
    using battleInvite_routed [OF gc, of ?s3 "''A''"] by auto
  have 2: "step ?s2 (BattleInvite ''A'' ?c) = Inr (?s2, [])"
    using battleInvite_routed [OF gc, of ?s2 "''A''"] by auto
  have 3: "step ?s2 (BattleInvite ''A'' ?n) = Inr (?s2, [])"
    using battleInvite_routed [OF gn, of ?s2 "''A''"] by auto
  have 4: "step ?s3 (BattleInvite ''A'' ?r) = Inr (?s3, [(''B'', ''battleInvite'', ?r)])"
    using battleInvite_routed [OF gr, of ?s3 "''A''"]
    by (simp add: on_battleInvite_def socket_to_emit_def socket_to_def rooms_of_def)
  from gc gn gr 1 2 3 4 show ?thesis by (simp only: simp_thms)
qed

text \<open>
  C10: a \<open>battleInvite\<close> never comes back to the socket that sent it, whatever the
  payload; when a connected client names its own session identifier as
  \<open>targetUserId\<close>, no client at all receives the event.
\<close>

theorem battleInvite_not_to_sender:
  "(\<forall>s' out. step s (BattleInvite a data) = Inr (s', out) \<longrightarrow> a \<notin> fst ` set out)
   \<and> (a \<in> set (sockets s) \<and> js_get data ''targetUserId'' = Inr (JStr a)
        \<longrightarrow> step s (BattleInvite a data) = Inr (s, []))"
  by (auto simp: on_battleInvite_def socket_to_emit_def socket_to_JStr socket_to_not_sender
      split: sum.splits)

theorem battleInvite_not_to_sender_witness:
  "''A'' \<in> set (sockets \<lparr>sockets = [''A'', ''B''], connectedUsers = []\<rparr>)
   \<and> js_get (JObj [(''targetUserId'', JStr ''A'')]) ''targetUserId'' = Inr (JStr ''A'')
   \<and> step \<lparr>sockets = [''A'', ''B''], connectedUsers = []\<rparr>
        (BattleInvite ''A'' (JObj [(''targetUserId'', JStr ''A'')]))
      = Inr (\<lparr>sockets = [''A'', ''B''], connectedUsers = []\<rparr>, [])
   \<and> step \<lparr>sockets = [''A'', ''B''], connectedUsers = []\<rparr>
        (BattleInvite ''A'' (JObj [(''targetUserId'', JStr ''B'')]))
      = Inr (\<lparr>sockets = [''A'', ''B''], connectedUsers = []\<rparr>,
             [(''B'', ''battleInvite'', JObj [(''targetUserId'', JStr ''B'')])])
   \<and> ''A'' \<notin> fst ` set [(''B'', ''battleInvite'', JObj [(''targetUserId'', JStr ''B'')])]"
proof -
  let ?s = "\<lparr>sockets = [''A'', ''B''], connectedUsers = []\<rparr>"
  let ?d = "JObj [(''targetUserId'', JStr ''B'')]"
  have e: "step ?s (BattleInvite ''A'' ?d) = Inr (?s, [(''B'', ''battleInvite'', ?d)])"
    by (simp add: on_battleInvite_def socket_to_emit_def socket_to_JStr)
  have "''A'' \<notin> fst ` set [(''B'', ''battleInvite'', ?d)]"
    using battleInvite_not_to_sender [of ?s "''A''" ?d] e by blast
  moreover have "step ?s (BattleInvite ''A'' (JObj [(''targetUserId'', JStr ''A'')])) = Inr (?s, [])"
    using battleInvite_not_to_sender [of ?s "''A''" "JObj [(''targetUserId'', JStr ''A'')]"]
    by simp
  ultimately show ?thesis using e by simp
qed

subsection \<open>Chat broadcast\<close>

text \<open>
  C2: a \<open>chatMessage\<close> sent by a connected client \<open>a\<close> with payload \<open>p\<close> is sent
  as \<open>chatMessage\<close> with the same \<open>p\<close> to every open socket, \<open>a\<close> included.
\<close>

theorem chatMessage_broadcast:
  assumes "a \<in> set (sockets s)"
  shows "\<exists>out. step s (ChatMessage a p) = Inr (s, out)
           \<and> out = map (\<lambda>r. (r, ''chatMessage'', p)) (sockets s)
           \<and> (a, ''chatMessage'', p) \<in> set out"
  using assms by (simp add: on_chatMessage_def io_emit_def)

theorem chatMessage_broadcast_witness:
  "''A'' \<in> set (sockets \<lparr>sockets = [''A'', ''B''], connectedUsers = []\<rparr>)
   \<and> step \<lparr>sockets = [''A'', ''B''], connectedUsers = []\<rparr> (ChatMessage ''A'' (JStr ''hi''))
      = Inr (\<lparr>sockets = [''A'', ''B''], connectedUsers = []\<rparr>,
             [(''A'', ''chatMessage'', JStr ''hi''), (''B'', ''chatMessage'', JStr ''hi'')])"
  using chatMessage_broadcast [of "''A''" "\<lparr>sockets = [''A'', ''B''], connectedUsers = []\<rparr>" "JStr ''hi''"]
  by simp

subsection \<open>Presence\<close>

text \<open>
  C5: handling \<open>userJoined\<close> and handling \<open>disconnect\<close> each end with an
  \<open>onlineUsers\<close> packet to every socket that is open at that moment, carrying the
  size of the registry right after the \<open>set\<close>, respectively the \<open>delete\<close>.
\<close>

theorem presence_broadcast:
  "(\<exists>s'. step s (UserJoined c u)
           = Inr (s', map (\<lambda>r. (r, ''onlineUsers'', JNum (int (Map_size (connectedUsers s')))))
                        (sockets s'))
         \<and> connectedUsers s' = Map_set c u (connectedUsers s)
         \<and> sockets s' = sockets s)
   \<and> (\<exists>s'. step s (Disconnect c)
           = Inr (s', map (\<lambda>r. (r, ''onlineUsers'', JNum (int (Map_size (connectedUsers s')))))
                        (sockets s'))
         \<and> connectedUsers s' = Map_delete c (connectedUsers s)
         \<and> sockets s' = removeAll c (sockets s))"
  by (simp add: on_userJoined_def on_disconnect_def io_emit_def Let_def)

text \<open>
  C6: when a connection that never sent \<open>userJoined\<close> disconnects, the handler does
  not throw and the registry, hence its size, is what it was; deleting a key that the
  registry does not hold gives the registry back.
\<close>

theorem disconnect_never_joined:
  assumes "replay init_relay es = Inr s" and "\<forall>u. UserJoined c u \<notin> set es"
  shows "(\<exists>s' out. step s (Disconnect c) = Inr (s', out)
           \<and> connectedUsers s' = connectedUsers s
           \<and> Map_size (connectedUsers s') = Map_size (connectedUsers s))
         \<and> (\<forall>m. c \<notin> set (Map_keys m) \<longrightarrow> Map_delete c m = m)"
proof -
  have "c \<notin> set (Map_keys (connectedUsers s))"
    using replay_joined_keys [OF assms(1)] assms(2)
    by (auto simp: init_relay_def Map_keys_def)
  then have "Map_delete c (connectedUsers s) = connectedUsers s"
    by (rule Map_delete_absent)
  then show ?thesis
    by (simp add: on_disconnect_def Let_def Map_delete_absent)
qed

theorem disconnect_never_joined_witness:
  "replay init_relay [Connect ''A'', Connect ''B'', UserJoined ''B'' (JStr ''bob'')]
     = Inr \<lparr>sockets = [''A'', ''B''], connectedUsers = [(''B'', JStr ''bob'')]\<rparr>
   \<and> (\<forall>u. UserJoined ''A'' u \<notin> set [Connect ''A'', Connect ''B'', UserJoined ''B'' (JStr ''bob'')])
   \<and> (\<exists>s' out. step \<lparr>sockets = [''A'', ''B''], connectedUsers = [(''B'', JStr ''bob'')]\<rparr> (Disconnect ''A'')
                  = Inr (s', out)
         \<and> connectedUsers s' = [(''B'', JStr ''bob'')])"
proof -
  have r: "replay init_relay [Connect ''A'', Connect ''B'', UserJoined ''B'' (JStr ''bob'')]
     = Inr \<lparr>sockets = [''A'', ''B''], connectedUsers = [(''B'', JStr ''bob'')]\<rparr>"
    by (simp add: init_relay_def on_userJoined_def Let_def)
  have n: "\<forall>u. UserJoined ''A'' u \<notin> set [Connect ''A'', Connect ''B'', UserJoined ''B'' (JStr ''bob'')]"
    by simp
  from disconnect_never_joined [OF r n]
  have "\<exists>s' out. step \<lparr>sockets = [''A'', ''B''], connectedUsers = [(''B'', JStr ''bob'')]\<rparr> (Disconnect ''A'')
                  = Inr (s', out)
         \<and> connectedUsers s' = connectedUsers \<lparr>sockets = [''A'', ''B''], connectedUsers = [(''B'', JStr ''bob'')]\<rparr>"
    by blast
  then have "\<exists>s' out. step \<lparr>sockets = [''A'', ''B''], connectedUsers = [(''B'', JStr ''bob'')]\<rparr> (Disconnect ''A'')
                  = Inr (s', out)
         \<and> connectedUsers s' = [(''B'', JStr ''bob'')]"
    by (simp del: step.simps)
  with r n show ?thesis by blast
qed

text \<open>
  C7: registering \<open>c\<close> with \<open>u\<close> and then with \<open>v\<close> gives the registry that
  registering \<open>c\<close> with \<open>v\<close> alone gives. For the handler: after \<open>userJoined\<close>
  with \<open>u\<close> the registry is the old one with \<open>c\<close> set to \<open>u\<close>; after a second
  \<open>userJoined\<close> of the same connection with \<open>v\<close> it is the old one with \<open>c\<close> set
  to \<open>v\<close>, the size is what it was after the first, the lookup of \<open>c\<close> gives
  \<open>v\<close>, and the state is the one reached by the single \<open>userJoined\<close> with \<open>v\<close>.
\<close>

theorem register_overwrites:
  "Map_set c v (Map_set c u m) = Map_set c v m
   \<and> Map_size (Map_set c v (Map_set c u m)) = Map_size (Map_set c u m)
   \<and> Map_get (Map_set c v (Map_set c u m)) c = Some v
   \<and> (\<exists>s1 out1 s2 out2.
         step s (UserJoined c u) = Inr (s1, out1)
       \<and> step s1 (UserJoined c v) = Inr (s2, out2)
       \<and> connectedUsers s1 = Map_set c u (connectedUsers s)
       \<and> Map_get (connectedUsers s1) c = Some u
       \<and> connectedUsers s2 = Map_set c v (connectedUsers s)
       \<and> Map_get (connectedUsers s2) c = Some v
       \<and> Map_size (connectedUsers s2) = Map_size (connectedUsers s1)
       \<and> sockets s2 = sockets s
       \<and> replay s [UserJoined c u, UserJoined c v] = Inr s2
       \<and> replay s [UserJoined c v] = Inr s2)"
proof -
  let ?s1 = "s\<lparr>connectedUsers := Map_set c u (connectedUsers s)\<rparr>"
  let ?s2 = "s\<lparr>connectedUsers := Map_set c v (connectedUsers s)\<rparr>"
  have a: "step s (UserJoined c u)
             = Inr (?s1, io_emit ?s1 ''onlineUsers'' (JNum (int (Map_size (connectedUsers ?s1)))))"
    by (simp add: on_userJoined_def Let_def)
  have b: "step ?s1 (UserJoined c v)
             = Inr (?s2, io_emit ?s2 ''onlineUsers'' (JNum (int (Map_size (connectedUsers ?s2)))))"
    by (simp add: on_userJoined_def Let_def Map_set_Map_set)
  have d: "step s (UserJoined c v)
             = Inr (?s2, io_emit ?s2 ''onlineUsers'' (JNum (int (Map_size (connectedUsers ?s2)))))"
    by (simp add: on_userJoined_def Let_def)
  have r2: "replay s [UserJoined c u, UserJoined c v] = Inr ?s2"
    using a b by (simp del: step.simps)
  have r1: "replay s [UserJoined c v] = Inr ?s2"
    using d by (simp del: step.simps)
  have g1: "Map_get (connectedUsers ?s1) c = Some u"
    by (simp add: Map_get_Map_set)
  have g2: "Map_get (connectedUsers ?s2) c = Some v"
    by (simp add: Map_get_Map_set)
  have sz: "Map_size (connectedUsers ?s2) = Map_size (connectedUsers ?s1)"
    by (simp add: Map_size_Map_set)
  have h: "\<exists>s1 out1 s2 out2.
         step s (UserJoined c u) = Inr (s1, out1)
       \<and> step s1 (UserJoined c v) = Inr (s2, out2)
       \<and> connectedUsers s1 = Map_set c u (connectedUsers s)
       \<and> Map_get (connectedUsers s1) c = Some u
       \<and> connectedUsers s2 = Map_set c v (connectedUsers s)
       \<and> Map_get (connectedUsers s2) c = Some v
       \<and> Map_size (connectedUsers s2) = Map_size (connectedUsers s1)
       \<and> sockets s2 = sockets s
       \<and> replay s [UserJoined c u, UserJoined c v] = Inr s2
       \<and> replay s [UserJoined c v] = Inr s2"
    apply (rule exI [of _ ?s1])
    apply (rule exI)
    apply (rule exI [of _ ?s2])
    apply (rule exI)
    using a b r1 r2 g1 g2 sz apply simp
    done
  then show ?thesis
    by (simp add: Map_set_Map_set Map_size_Map_set Map_keys_Map_set Map_get_Map_set del: step.simps replay.simps)
qed

subsection \<open>The registry along a trace\<close>

text \<open>
  C3, as stated, fails: a connection that is open and has not sent \<open>userJoined\<close>
  has no entry, so after a single connect the registry holds no entry while one
  connection is open.
\<close>

theorem registry_vs_open_counterexample:
  "trace_ok init_relay [Connect ''A'']
   \<and> replay init_relay [Connect ''A''] = Inr \<lparr>sockets = [''A''], connectedUsers = []\<rparr>
   \<and> Map_size (connectedUsers \<lparr>sockets = [''A''], connectedUsers = []\<rparr>)
       \<noteq> length (sockets \<lparr>sockets = [''A''], connectedUsers = []\<rparr>)"
  by (simp add: init_relay_def Map_size_def)

text \<open>
  C3, amended: in every state reached by a trace the transport can produce, session
  identifiers are unique among the open sockets, no two entries of the registry share
  a key, every key is the identifier of an open socket, and the number of entries is
  the number of open sockets that have sent \<open>userJoined\<close>, so at most the number of
  open sockets.
\<close>

theorem registry_entries_live:
  assumes "trace_ok init_relay es" and "replay init_relay es = Inr s"
  shows "distinct (sockets s)
         \<and> distinct (Map_keys (connectedUsers s))
         \<and> set (Map_keys (connectedUsers s)) \<subseteq> set (sockets s)
         \<and> Map_size (connectedUsers s) \<le> length (sockets s)
         \<and> Map_size (connectedUsers s)
             = length (filter (\<lambda>c. c \<in> set (foldl joined_after [] es)) (sockets s))"
proof -
  have l: "live_ok s"
    using assms live_ok_init by (rule replay_live_ok)
  have k: "keys_ok s (foldl joined_after [] es)"
    using replay_count [OF assms(2) keys_ok_init] by simp
  have "Map_size (connectedUsers s)
          = length (filter (\<lambda>c. c \<in> set (Map_keys (connectedUsers s))) (sockets s))"
    using l by (rule live_ok_size_joined)
  with k have "Map_size (connectedUsers s)
          = length (filter (\<lambda>c. c \<in> set (foldl joined_after [] es)) (sockets s))"
    by (simp add: keys_ok_def)
  with l live_ok_size [OF l] show ?thesis
    by (simp add: live_ok_def)
qed

theorem registry_entries_live_witness:
  "trace_ok init_relay [Connect ''A'', Connect ''B'', UserJoined ''B'' (JStr ''bob'')]
   \<and> replay init_relay [Connect ''A'', Connect ''B'', UserJoined ''B'' (JStr ''bob'')]
       = Inr \<lparr>sockets = [''A'', ''B''], connectedUsers = [(''B'', JStr ''bob'')]\<rparr>
   \<and> set (Map_keys [(''B'', JStr ''bob'')]) \<subseteq> set [''A'', ''B'']
   \<and> Map_size [(''B'', JStr ''bob'')] \<le> length [''A'', ''B'']"
proof -
  have t: "trace_ok init_relay [Connect ''A'', Connect ''B'', UserJoined ''B'' (JStr ''bob'')]"
    by (simp add: init_relay_def on_userJoined_def Let_def)
  have r: "replay init_relay [Connect ''A'', Connect ''B'', UserJoined ''B'' (JStr ''bob'')]
       = Inr \<lparr>sockets = [''A'', ''B''], connectedUsers = [(''B'', JStr ''bob'')]\<rparr>"
    by (simp add: init_relay_def on_userJoined_def Let_def)
  from registry_entries_live [OF t r] t r show ?thesis by simp
qed

text \<open>
  C4, as stated, fails: a second \<open>userJoined\<close> of the same connection overwrites
  its entry, so two joins of one connection leave one entry.
\<close>

theorem registry_size_counterexample:
  "replay init_relay [Connect ''A'', UserJoined ''A'' (JStr ''u''), UserJoined ''A'' (JStr ''v'')]
     = Inr \<lparr>sockets = [''A''], connectedUsers = [(''A'', JStr ''v'')]\<rparr>
   \<and> int (Map_size (connectedUsers \<lparr>sockets = [''A''], connectedUsers = [(''A'', JStr ''v'')]\<rparr>))
       \<noteq> int (count_joins [Connect ''A'', UserJoined ''A'' (JStr ''u''), UserJoined ''A'' (JStr ''v'')])
         - int (disconnects_of_joined []
                 [Connect ''A'', UserJoined ''A'' (JStr ''u''), UserJoined ''A'' (JStr ''v'')])"
  by (simp add: init_relay_def on_userJoined_def Let_def Map_size_def)

text \<open>
  C4, amended: for every sequence of connect, \<open>userJoined\<close> and \<open>disconnect\<close>
  events and every prefix of it, replaying the prefix succeeds and the size of the
  registry is the number of \<open>userJoined\<close> events of connections that had not joined
  yet minus the number of \<open>disconnect\<close> events of connections that had joined; this
  difference is never negative.
\<close>

theorem registry_size_first_joins:
  assumes "list_all lifecycle es"
  shows "\<exists>s. replay init_relay (take n es) = Inr s
           \<and> int (Map_size (connectedUsers s))
               = int (first_joins [] (take n es)) - int (disconnects_of_joined [] (take n es))
           \<and> disconnects_of_joined [] (take n es) \<le> first_joins [] (take n es)"
proof -
  have "\<forall>e \<in> set (take n es). lifecycle e"
    using assms by (auto simp: list_all_iff dest: in_set_takeD)
  then obtain s where r: "replay init_relay (take n es) = Inr s"
    using replay_lifecycle by blast
  have "Map_size (connectedUsers s) + disconnects_of_joined [] (take n es)
          = Map_size (connectedUsers init_relay) + first_joins [] (take n es)"
    using replay_count [OF r keys_ok_init] by simp
  then have "Map_size (connectedUsers s) + disconnects_of_joined [] (take n es)
          = first_joins [] (take n es)"
    by (simp add: init_relay_def Map_size_def)
  with r show ?thesis by auto
qed

theorem registry_size_first_joins_witness:
  "list_all lifecycle [Connect ''A'', UserJoined ''A'' (JStr ''u''), UserJoined ''A'' (JStr ''v''),
                Connect ''B'', Disconnect ''B'', Disconnect ''A'']
   \<and> first_joins [] [Connect ''A'', UserJoined ''A'' (JStr ''u''), UserJoined ''A'' (JStr ''v''),
                Connect ''B'', Disconnect ''B'', Disconnect ''A''] = 1
   \<and> disconnects_of_joined [] [Connect ''A'', UserJoined ''A'' (JStr ''u''), UserJoined ''A'' (JStr ''v''),
                Connect ''B'', Disconnect ''B'', Disconnect ''A''] = 1
   \<and> (\<exists>s. replay init_relay [Connect ''A'', UserJoined ''A'' (JStr ''u''), UserJoined ''A'' (JStr ''v''),
                Connect ''B'', Disconnect ''B'', Disconnect ''A''] = Inr s
          \<and> Map_size (connectedUsers s) = 0)"
proof -
  let ?es = "[Connect ''A'', UserJoined ''A'' (JStr ''u''), UserJoined ''A'' (JStr ''v''),
                Connect ''B'', Disconnect ''B'', Disconnect ''A'']"
  have l: "list_all lifecycle ?es" by simp
  have f: "first_joins [] ?es = 1" by simp
  have d: "disconnects_of_joined [] ?es = 1" by simp
  from registry_size_first_joins [OF l, of 6] f d
  have "\<exists>s. replay init_relay ?es = Inr s \<and> Map_size (connectedUsers s) = 0"
    by (simp del: replay.simps)
  with l f d show ?thesis by simp
qed

subsection \<open>HTTP\<close>

text \<open>
  C8: \<open>GET /api/users/online\<close> answers with a body whose \<open>count\<close> is the size
  of the registry in the state in which the request is handled.
\<close>

theorem users_online_count:
  "status (get_users_online s) = 200
   \<and> js_get (body (get_users_online s)) ''count'' = Inr (JNum (int (Map_size (connectedUsers s))))"
  by (simp add: get_users_online_def)

text \<open>
  C9, as stated, fails: a request that supplies both fields, with \<open>progress\<close> equal
  to \<open>0\<close>, is answered with status 400; and a request whose body is \<open>undefined\<close>
  is answered with status 500.
\<close>

theorem progress_supplied_counterexample:
  "supplied (JObj [(''userId'', JStr ''u1''), (''progress'', JNum 0)]) ''userId''
   \<and> supplied (JObj [(''userId'', JStr ''u1''), (''progress'', JNum 0)]) ''progress''
   \<and> snd (post_progress (JObj [(''userId'', JStr ''u1''), (''progress'', JNum 0)]) init_relay)
       = \<lparr>status = 400, body = JObj [(''error'', JStr ''Progress data is required'')]\<rparr>
   \<and> snd (post_progress JUndefined init_relay)
       = \<lparr>status = 500, body = JObj [(''error'', JStr ''Failed to save progress'')]\<rparr>"
  by (simp add: post_progress_def)

text \<open>
  C9, amended: for every request body, \<open>POST /api/progress\<close> answers with the
  success acknowledgment exactly when \<open>userId\<close> and \<open>progress\<close> can both be read
  from the body and both have a truthy value. A body that is \<open>undefined\<close> or
  \<open>null\<close> is answered with status 500 and the message that saving failed; any other
  body with a missing or falsy \<open>userId\<close> with status 400 and the message that the
  user id is required; any other body with a truthy \<open>userId\<close> and a missing or falsy
  \<open>progress\<close> with status 400 and the message that progress data is required. The
  state of the process is the same after the request in every case.
\<close>

theorem progress_truthy:
  "fst (post_progress req_body s) = s
   \<and> (snd (post_progress req_body s)
        = \<lparr>status = 200,
            body = JObj [(''success'', JBool True), (''message'', JStr ''Progress saved'')]\<rparr>
       \<longleftrightarrow> (\<exists>userId progress. js_get req_body ''userId'' = Inr userId
              \<and> js_get req_body ''progress'' = Inr progress
              \<and> truthy userId \<and> truthy progress))
   \<and> (req_body = JUndefined \<or> req_body = JNull
        \<longrightarrow> snd (post_progress req_body s)
              = \<lparr>status = 500, body = JObj [(''error'', JStr ''Failed to save progress'')]\<rparr>)
   \<and> (\<forall>userId. js_get req_body ''userId'' = Inr userId \<and> \<not> truthy userId
        \<longrightarrow> snd (post_progress req_body s)
              = \<lparr>status = 400, body = JObj [(''error'', JStr ''User ID is required'')]\<rparr>)
   \<and> (\<forall>userId progress. js_get req_body ''userId'' = Inr userId
          \<and> js_get req_body ''progress'' = Inr progress
          \<and> truthy userId \<and> \<not> truthy progress
        \<longrightarrow> snd (post_progress req_body s)
              = \<lparr>status = 400, body = JObj [(''error'', JStr ''Progress data is required'')]\<rparr>)"
proof (cases "req_body = JUndefined \<or> req_body = JNull")
  case True
  then show ?thesis by (auto simp: post_progress_def)
next
  case False
  then obtain x y where x: "js_get req_body ''userId'' = Inr x" and y: "js_get req_body ''progress'' = Inr y"
    by (cases req_body) auto
  with False show ?thesis by (simp add: post_progress_def)
qed

theorem progress_truthy_witness:
  "post_progress (JObj [(''userId'', JStr ''u1''), (''progress'', JNum 40)]) init_relay
       = (init_relay, \<lparr>status = 200,
                  body = JObj [(''success'', JBool True), (''message'', JStr ''Progress saved'')]\<rparr>)
   \<and> js_get (JObj [(''progress'', JNum 40)]) ''userId'' = Inr JUndefined
   \<and> post_progress (JObj [(''progress'', JNum 40)]) init_relay
       = (init_relay, \<lparr>status = 400, body = JObj [(''error'', JStr ''User ID is required'')]\<rparr>)
   \<and> js_get (JObj [(''userId'', JStr ''u1'')]) ''progress'' = Inr JUndefined
   \<and> post_progress (JObj [(''userId'', JStr ''u1'')]) init_relay
       = (init_relay, \<lparr>status = 400, body = JObj [(''error'', JStr ''Progress data is required'')]\<rparr>)
   \<and> post_progress JNull init_relay
       = (init_relay, \<lparr>status = 500, body = JObj [(''error'', JStr ''Failed to save progress'')]\<rparr>)"
  using progress_truthy [of "JObj [(''userId'', JStr ''u1''), (''progress'', JNum 40)]" init_relay]
    progress_truthy [of "JObj [(''progress'', JNum 40)]" init_relay]
    progress_truthy [of "JObj [(''userId'', JStr ''u1'')]" init_relay]
    progress_truthy [of JNull init_relay]
  by (simp add: prod_eq_iff)

end
